theory Spec2Isabelle
  imports Complex_Main
begin

section \<open>Characters and strings of the Python source\<close>

text \<open>
  A Python \<open>str\<close> is a sequence of code points. The model covers the code points
  below 256, one \<^typ>\<open>char\<close> each, so \<open>length\<close> counts what Python's \<open>len\<close> counts.
  Python floats (prices, the clock) are modelled as reals: infinities and NaN are
  outside the model. Where the program makes a float from text, the rounding to a double
  is modelled (\<open>float_round\<close> below).
\<close>

definition ord :: "char \<Rightarrow> nat" where
  "ord c = of_char c"

text \<open>\<open>[A-Za-z]\<close>: the two ASCII ranges (the pattern has no IGNORECASE flag).\<close>

definition is_letter :: "char \<Rightarrow> bool" where
  "is_letter c = ((65 \<le> ord c \<and> ord c \<le> 90) \<or> (97 \<le> ord c \<and> ord c \<le> 122))"

text \<open>
  \<open>\s\<close> of a str pattern and the characters \<open>str.strip()\<close> removes: the code points
  Python calls whitespace. Below 256 these are 9..13, 28..32, 133 and 160.
\<close>

definition is_space :: "char \<Rightarrow> bool" where
  "is_space c = ((9 \<le> ord c \<and> ord c \<le> 13) \<or> (28 \<le> ord c \<and> ord c \<le> 32)
                 \<or> ord c = 133 \<or> ord c = 160)"

text \<open>\<open>\d\<close>: the decimal digits; below 256 only \<open>0\<close>..\<open>9\<close>.\<close>

definition is_digit :: "char \<Rightarrow> bool" where
  "is_digit c = (48 \<le> ord c \<and> ord c \<le> 57)"

text \<open>\<open>str.strip()\<close> with no argument.\<close>

definition strip :: "string \<Rightarrow> string" where
  "strip s = rev (dropWhile is_space (rev (dropWhile is_space s)))"

text \<open>
  \<open>str.lower()\<close>: below 256 the upper-case letters are \<open>A\<close>..\<open>Z\<close> and 192..222
  without the multiplication sign 215; each is 32 below its lower-case form.
\<close>

definition lower_char :: "char \<Rightarrow> char" where
  "lower_char c =
     (if (65 \<le> ord c \<and> ord c \<le> 90) \<or> (192 \<le> ord c \<and> ord c \<le> 222 \<and> ord c \<noteq> 215)
      then char_of (ord c + 32) else c)"

definition lower :: "string \<Rightarrow> string" where
  "lower s = map lower_char s"

text \<open>\<open>sub in s\<close> on strings: \<open>sub\<close> occurs in \<open>s\<close> as a contiguous piece.\<close>

fun str_contains :: "string \<Rightarrow> string \<Rightarrow> bool" where
  "str_contains sub [] = (sub = [])"
| "str_contains sub (c # cs) =
     (if take (length sub) (c # cs) = sub then True else str_contains sub cs)"

section \<open>Data model\<close>

text \<open>The two pydantic models; an \<open>Optional\<close> field is an option.\<close>

record UserPreferences =
  departure_airports :: "string list"
  destination_keywords :: "string list"
  max_price :: "real option"
  pref_currency :: "string option"

record TravelDeal =
  title :: string
  link :: string
  price :: "real option"
  currency :: "string option"
  departure :: "string option"
  destination :: "string option"

text \<open>
  The module-level \<open>cache\<close> dictionary has the same two keys for the whole run, so it
  is a total function on them.
\<close>

datatype source = secret_flying | the_flight_deal

record cache_entry =
  timestamp :: real
  data :: "TravelDeal list"

definition CACHE_TTL :: real where
  "CACHE_TTL = 300"

text \<open>
  The world a request runs in: the cache, and the log of the feeds fetched so far (one
  item for each call of \<open>feedparser.parse\<close>).
\<close>

record world =
  cache :: "source \<Rightarrow> cache_entry"
  fetch_log :: "source list"

definition initial_world :: world where
  "initial_world =
     \<lparr>cache = (\<lambda>_. \<lparr>timestamp = 0, data = []\<rparr>), fetch_log = []\<rparr>"

text \<open>What \<open>except Exception\<close> can catch in this program.\<close>

datatype exn = FetchError | AttributeError | ValueError

text \<open>
  A feed entry as the feed library yields it: reading an attribute the entry lacks
  raises AttributeError. A fetch either raises or yields the entries.
\<close>

record feed_entry =
  entry_title :: "string option"
  entry_link :: "string option"

type_synonym feed = "exn + feed_entry list"

section \<open>filter_deals\<close>

text \<open>The three conditions under which the loop of \<open>filter_deals\<close> skips a deal
  (\<open>continue\<close>), in the source's order. \<open>x and ...\<close> on an optional string is false for
  \<open>None\<close> and for the empty string; on an optional float, for \<open>None\<close> and for zero.\<close>

definition skip_departure :: "TravelDeal \<Rightarrow> UserPreferences \<Rightarrow> bool" where
  "skip_departure deal prefs =
     (case departure deal of
        None \<Rightarrow> False
      | Some dep \<Rightarrow> dep \<noteq> [] \<and> dep \<notin> set (departure_airports prefs))"

definition skip_destination :: "TravelDeal \<Rightarrow> UserPreferences \<Rightarrow> bool" where
  "skip_destination deal prefs =
     (case destination deal of
        None \<Rightarrow> False
      | Some dest \<Rightarrow> dest \<noteq> [] \<and>
          \<not> list_ex (\<lambda>kw. str_contains (lower kw) (lower dest)) (destination_keywords prefs))"

definition skip_price :: "TravelDeal \<Rightarrow> UserPreferences \<Rightarrow> bool" where
  "skip_price deal prefs =
     (case max_price prefs of
        None \<Rightarrow> False
      | Some m \<Rightarrow> m \<noteq> 0 \<and>
          (case price deal of None \<Rightarrow> False | Some p \<Rightarrow> p \<noteq> 0 \<and> p > m))"

fun filter_deals :: "TravelDeal list \<Rightarrow> UserPreferences \<Rightarrow> TravelDeal list" where
  "filter_deals [] prefs = []"
| "filter_deals (deal # deals) prefs =
     (if skip_departure deal prefs then filter_deals deals prefs
      else if skip_destination deal prefs then filter_deals deals prefs
      else if skip_price deal prefs then filter_deals deals prefs
      else deal # filter_deals deals prefs)"

text \<open>A deal passes a predicate when the corresponding check does not skip it.\<close>

definition passes_departure :: "TravelDeal \<Rightarrow> UserPreferences \<Rightarrow> bool" where
  "passes_departure deal prefs = (\<not> skip_departure deal prefs)"

definition passes_destination :: "TravelDeal \<Rightarrow> UserPreferences \<Rightarrow> bool" where
  "passes_destination deal prefs = (\<not> skip_destination deal prefs)"

definition passes_price :: "TravelDeal \<Rightarrow> UserPreferences \<Rightarrow> bool" where
  "passes_price deal prefs = (\<not> skip_price deal prefs)"

section \<open>parse_deal\<close>

text \<open>
  The pattern \<open>([A-Za-z\s]+) to ([A-Za-z,\s]+).*?\$(\d+)\<close> under \<open>re.search\<close>, as the
  backtracking matcher runs it. Each function matches the pattern from one point on
  against the text that is left and returns the groups captured from there.
\<close>

definition origin_char :: "char \<Rightarrow> bool" where
  "origin_char c = (is_letter c \<or> is_space c)"

definition dest_char :: "char \<Rightarrow> bool" where
  "dest_char c = (is_letter c \<or> c = CHR '','' \<or> is_space c)"

text \<open>\<open>\$(\d+)\<close>: a dollar sign, then the longest run of digits, at least one. Nothing
  follows in the pattern, so the longest run is the match.\<close>

definition match_price :: "string \<Rightarrow> string option" where
  "match_price s =
     (case s of
        [] \<Rightarrow> None
      | c # r \<Rightarrow>
          if c = CHR ''$'' \<and> takeWhile is_digit r \<noteq> [] then Some (takeWhile is_digit r)
          else None)"

text \<open>\<open>.*?\<close> then the price: lazy, so the price is tried first at every point, and one
  more character is consumed only when that fails. The dot does not match a newline.\<close>

fun match_gap :: "string \<Rightarrow> string option" where
  "match_gap [] = match_price []"
| "match_gap (c # r) =
     (case match_price (c # r) of
        Some ds \<Rightarrow> Some ds
      | None \<Rightarrow> if c = CHR 0x0A then None else match_gap r)"

text \<open>\<open>([A-Za-z,\s]+)\<close>: greedy. \<open>try_dest s m\<close> tries the group at length \<open>m\<close>, then
  at each shorter length down to one; \<open>match_dest\<close> starts at the longest run.\<close>

fun try_dest :: "string \<Rightarrow> nat \<Rightarrow> (string \<times> string) option" where
  "try_dest s 0 = None"
| "try_dest s (Suc m) =
     (case match_gap (drop (Suc m) s) of
        Some ds \<Rightarrow> Some (take (Suc m) s, ds)
      | None \<Rightarrow> try_dest s m)"

definition match_dest :: "string \<Rightarrow> (string \<times> string) option" where
  "match_dest s = try_dest s (length (takeWhile dest_char s))"

text \<open>The literal \<open>" to "\<close>, then the destination.\<close>

definition match_to :: "string \<Rightarrow> (string \<times> string) option" where
  "match_to s = (if take 4 s = '' to '' then match_dest (drop 4 s) else None)"

text \<open>\<open>([A-Za-z\s]+)\<close>: greedy, as for the destination.\<close>

fun try_origin :: "string \<Rightarrow> nat \<Rightarrow> (string \<times> string \<times> string) option" where
  "try_origin s 0 = None"
| "try_origin s (Suc k) =
     (case match_to (drop (Suc k) s) of
        Some (b, ds) \<Rightarrow> Some (take (Suc k) s, b, ds)
      | None \<Rightarrow> try_origin s k)"

definition match_here :: "string \<Rightarrow> (string \<times> string \<times> string) option" where
  "match_here s = try_origin s (length (takeWhile origin_char s))"

text \<open>\<open>re.search\<close>: the match at the leftmost start that has one. The result is
  groups 1, 2 and 3.\<close>

fun re_search :: "string \<Rightarrow> (string \<times> string \<times> string) option" where
  "re_search [] = match_here []"
| "re_search (c # r) =
     (case match_here (c # r) of
        Some g \<Rightarrow> Some g
      | None \<Rightarrow> re_search r)"

text \<open>The number a run of decimal digits spells.\<close>

definition digit_val :: "char \<Rightarrow> nat" where
  "digit_val c = ord c - 48"

definition decimal :: "string \<Rightarrow> nat" where
  "decimal ds = foldl (\<lambda>n c. 10 * n + digit_val c) 0 ds"

text \<open>
  The double nearest to a natural number, as \<open>float\<close> computes it from decimal text:
  a number of at most 53 bits is kept; a longer one is cut to its 53 leading bits and
  rounded to the nearest, a tie going to the even one. The code yields \<open>inf\<close> exactly
  where this number reaches \<open>2 ^ 1024\<close>; the reals have no infinity, and there the
  number stands for it (like \<open>inf\<close> it is not zero and lies above every double).
\<close>

fun bit_len :: "nat \<Rightarrow> nat" where
  "bit_len n = (if n = 0 then 0 else Suc (bit_len (n div 2)))"

declare bit_len.simps [simp del]

definition float_round :: "nat \<Rightarrow> real" where
  "float_round n =
     (if bit_len n \<le> 53 then real n
      else
        let e = bit_len n - 53; q = n div 2 ^ e; r = n mod 2 ^ e; h = 2 ^ (e - 1)
        in real ((if r > h \<or> (r = h \<and> odd q) then q + 1 else q) * 2 ^ e))"

text \<open>\<open>float\<close> on the captured text. Only runs of decimal digits reach it; the model
  lets every other text raise ValueError.\<close>

definition py_float :: "string \<Rightarrow> exn + real" where
  "py_float s =
     (if s \<noteq> [] \<and> list_all is_digit s then Inr (float_round (decimal s)) else Inl ValueError)"

text \<open>The body of the \<open>try\<close> in \<open>parse_deal\<close>, and \<open>parse_deal\<close> itself: whatever the
  body raises is caught, and the function then returns \<open>None\<close>.\<close>

definition parse_deal_try :: "string \<Rightarrow> string \<Rightarrow> exn + TravelDeal option" where
  "parse_deal_try title' link' =
     (case re_search title' of
        None \<Rightarrow> Inr None
      | Some (g1, g2, g3) \<Rightarrow>
          (case py_float g3 of
             Inl e \<Rightarrow> Inl e
           | Inr price' \<Rightarrow>
               Inr (Some \<lparr>title = title', link = link', price = Some price',
                          currency = Some ''USD'', departure = Some (strip g1),
                          destination = Some (strip g2)\<rparr>)))"

definition parse_deal :: "string \<Rightarrow> string \<Rightarrow> TravelDeal option" where
  "parse_deal title' link' =
     (case parse_deal_try title' link' of Inl e \<Rightarrow> None | Inr r \<Rightarrow> r)"

section \<open>The two scrapers and the endpoint\<close>

text \<open>The \<open>for\<close> loop over the entries of a feed: an entry that parses is appended, one
  that does not is dropped; a missing attribute raises.\<close>

fun collect_loop :: "feed_entry list \<Rightarrow> TravelDeal list \<Rightarrow> exn + TravelDeal list" where
  "collect_loop [] deals = Inr deals"
| "collect_loop (entry # entries) deals =
     (case entry_title entry of
        None \<Rightarrow> Inl AttributeError
      | Some t \<Rightarrow>
          (case entry_link entry of
             None \<Rightarrow> Inl AttributeError
           | Some l \<Rightarrow>
               (case parse_deal t l of
                  None \<Rightarrow> collect_loop entries deals
                | Some deal \<Rightarrow> collect_loop entries (deals @ [deal]))))"

definition collect_deals :: "feed_entry list \<Rightarrow> exn + TravelDeal list" where
  "collect_deals entries = collect_loop entries []"

text \<open>The \<open>try\<close> block of a scraper up to the cache assignment: fetch, then the loop.\<close>

definition fetch_and_parse :: "feed \<Rightarrow> exn + TravelDeal list" where
  "fetch_and_parse f = (case f of Inl e \<Rightarrow> Inl e | Inr entries \<Rightarrow> collect_deals entries)"

text \<open>
  The two scrapers differ in the cache key and the URL only. \<open>current_time\<close> is what
  \<open>time.time()\<close> returns and \<open>f\<close> what the fetch does if it is called.
\<close>

definition scrape :: "source \<Rightarrow> real \<Rightarrow> feed \<Rightarrow> world \<Rightarrow> TravelDeal list \<times> world" where
  "scrape src current_time f w =
     (if current_time - timestamp (cache w src) < CACHE_TTL then (data (cache w src), w)
      else
        let w1 = w\<lparr>fetch_log := fetch_log w @ [src]\<rparr> in
        (case fetch_and_parse f of
           Inl e \<Rightarrow> ([], w1)
         | Inr deals \<Rightarrow>
             (deals, w1\<lparr>cache := (cache w1)(src := \<lparr>timestamp = current_time, data = deals\<rparr>)\<rparr>)))"

definition scrape_secret_flying :: "real \<Rightarrow> feed \<Rightarrow> world \<Rightarrow> TravelDeal list \<times> world" where
  "scrape_secret_flying = scrape secret_flying"

definition scrape_the_flight_deal :: "real \<Rightarrow> feed \<Rightarrow> world \<Rightarrow> TravelDeal list \<times> world" where
  "scrape_the_flight_deal = scrape the_flight_deal"

text \<open>\<open>all_deals\<close> of \<open>find_deals\<close>: the left operand of \<open>+\<close> runs first.\<close>

definition all_deals ::
  "real \<Rightarrow> feed \<Rightarrow> real \<Rightarrow> feed \<Rightarrow> world \<Rightarrow> TravelDeal list \<times> world" where
  "all_deals t1 f1 t2 f2 w =
     (let (a, w1) = scrape_secret_flying t1 f1 w;
          (b, w2) = scrape_the_flight_deal t2 f2 w1
      in (a @ b, w2))"

definition find_deals ::
  "UserPreferences \<Rightarrow> real \<Rightarrow> feed \<Rightarrow> real \<Rightarrow> feed \<Rightarrow> world \<Rightarrow> TravelDeal list \<times> world" where
  "find_deals prefs t1 f1 t2 f2 w =
     (let (deals, w2) = all_deals t1 f1 t2 f2 w
      in if deals = [] then ([], w2) else (filter_deals deals prefs, w2))"

section \<open>The shapes of a title\<close>

text \<open>
  What the pattern says, without the order in which the matcher tries things: the title
  splits into a prefix, an origin, the literal \<open>" to "\<close>, a destination, a gap, a dollar
  sign, the digits, and a rest.
\<close>

definition decomposes ::
  "string \<Rightarrow> string \<Rightarrow> string \<Rightarrow> string \<Rightarrow> string \<Rightarrow> string \<Rightarrow> string \<Rightarrow> bool" where
  "decomposes t pre a b mid ds rest =
     (t = pre @ a @ '' to '' @ b @ mid @ ''$'' @ ds @ rest
      \<and> a \<noteq> [] \<and> list_all origin_char a
      \<and> b \<noteq> [] \<and> list_all dest_char b
      \<and> CHR 0x0A \<notin> set mid
      \<and> ds \<noteq> [] \<and> list_all is_digit ds)"

definition pattern_matches :: "string \<Rightarrow> bool" where
  "pattern_matches t = (\<exists>pre a b mid ds rest. decomposes t pre a b mid ds rest)"

text \<open>
  The shape \<open><A> to <B> ... $<N>\<close> of the specification, for the title
  \<open>A @ " to " @ B @ mid @ "$" @ N\<close>: an origin of letters and spaces, a destination of
  letters, commas and spaces, and the digits after the first dollar sign that follows.
\<close>

definition title_shape :: "string \<Rightarrow> string \<Rightarrow> string \<Rightarrow> string \<Rightarrow> bool" where
  "title_shape a b mid ds =
     (a \<noteq> [] \<and> list_all origin_char a
      \<and> b \<noteq> [] \<and> list_all dest_char b
      \<and> CHR ''$'' \<notin> set mid
      \<and> ds \<noteq> [] \<and> list_all is_digit ds)"

text \<open>
  The same shape with the split pinned down, for the title
  \<open>pre @ A @ " to " @ B @ mid @ "$" @ N @ rest\<close>: no match can start in the prefix, the
  \<open>" to "\<close> after the origin is the last one before the dollar sign, the destination
  and the digits are as long as they can be, and the gap has no newline.
\<close>

definition canonical_shape ::
  "string \<Rightarrow> string \<Rightarrow> string \<Rightarrow> string \<Rightarrow> string \<Rightarrow> string \<Rightarrow> bool" where
  "canonical_shape pre a b mid ds rest =
     (title_shape a b mid ds
      \<and> (pre = [] \<or> (\<not> origin_char (last pre) \<and> \<not> str_contains '' to '' pre))
      \<and> \<not> str_contains '' to '' (''to '' @ b @ mid)
      \<and> (mid = [] \<or> \<not> dest_char (hd mid))
      \<and> CHR 0x0A \<notin> set mid
      \<and> (rest = [] \<or> \<not> is_digit (hd rest)))"

text \<open>The deal the specification promises for a title split into origin \<open>a\<close>,
  destination \<open>b\<close> and digits \<open>ds\<close>: its price is the number the digits spell.\<close>

definition expected_deal :: "string \<Rightarrow> string \<Rightarrow> string \<Rightarrow> string \<Rightarrow> string \<Rightarrow> TravelDeal" where
  "expected_deal t l a b ds =
     \<lparr>title = t, link = l, price = Some (real (decimal ds)), currency = Some ''USD'',
      departure = Some (strip a), destination = Some (strip b)\<rparr>"


section \<open>Properties of the matcher\<close>

subsection \<open>Every match is a title of the pattern\<close>

lemma match_price_Some:
  assumes "match_price s = Some ds"
  shows "\<exists>rest. s = ''$'' @ ds @ rest \<and> ds \<noteq> [] \<and> list_all is_digit ds"
proof -
  from assms obtain r where s: "s = CHR ''$'' # r" and ds: "ds = takeWhile is_digit r" and ne: "ds \<noteq> []"
    by (auto simp: match_price_def split: list.splits if_splits)
  have "r = ds @ dropWhile is_digit r" by (simp add: ds)
  moreover have "list_all is_digit ds" by (simp add: ds list_all_iff) (meson set_takeWhileD)
  ultimately show ?thesis using s ne by auto
qed

lemma match_gap_Some:
  "match_gap s = Some ds \<Longrightarrow>
     \<exists>mid rest. s = mid @ ''$'' @ ds @ rest \<and> CHR 0x0A \<notin> set mid \<and> ds \<noteq> [] \<and> list_all is_digit ds"
proof (induction s)
  case Nil
  then show ?case by (simp add: match_price_def)
next
  case (Cons c r)
  show ?case
  proof (cases "match_price (c # r)")
    case (Some ds')
    with Cons.prems have "ds' = ds" by simp
    with Some obtain rest where "c # r = [] @ ''$'' @ ds @ rest" "ds \<noteq> []" "list_all is_digit ds"
      using match_price_Some by fastforce
    then show ?thesis by (metis empty_iff list.set(1))
  next
    case None
    with Cons.prems have c: "c \<noteq> CHR 0x0A" and "match_gap r = Some ds"
      by (auto split: if_splits)
    then obtain mid rest where "r = mid @ ''$'' @ ds @ rest" "CHR 0x0A \<notin> set mid" "ds \<noteq> []" "list_all is_digit ds"
      using Cons.IH by blast
    then have "c # r = (c # mid) @ ''$'' @ ds @ rest \<and> CHR 0x0A \<notin> set (c # mid) \<and> ds \<noteq> [] \<and> list_all is_digit ds"
      using c by simp
    then show ?thesis by blast
  qed
qed

lemma try_dest_Some:
  "try_dest s m = Some (b, ds) \<Longrightarrow> \<exists>k. 0 < k \<and> k \<le> m \<and> b = take k s \<and> match_gap (drop k s) = Some ds"
proof (induction m)
  case 0
  then show ?case by simp
next
  case (Suc m)
  show ?case
  proof (cases "match_gap (drop (Suc m) s)")
    case None
    with Suc.prems have "try_dest s m = Some (b, ds)" by simp
    then show ?thesis using Suc.IH by (meson le_Suc_eq)
  next
    case (Some ds')
    with Suc.prems have "b = take (Suc m) s" "ds' = ds" by simp_all
    with Some show ?thesis by blast
  qed
qed

lemma try_origin_Some:
  "try_origin s n = Some (a, b, ds) \<Longrightarrow> \<exists>k. 0 < k \<and> k \<le> n \<and> a = take k s \<and> match_to (drop k s) = Some (b, ds)"
proof (induction n)
  case 0
  then show ?case by simp
next
  case (Suc n)
  show ?case
  proof (cases "match_to (drop (Suc n) s)")
    case None
    with Suc.prems have "try_origin s n = Some (a, b, ds)" by simp
    then show ?thesis using Suc.IH by (meson le_Suc_eq)
  next
    case (Some g)
    with Suc.prems have "a = take (Suc n) s" "g = (b, ds)" by (auto split: prod.splits)
    with Some show ?thesis by blast
  qed
qed

lemma take_run_all:
  assumes "k \<le> length (takeWhile P xs)"
  shows "list_all P (take k xs)"
proof -
  have "take k xs = take k (takeWhile P xs)"
    using assms by (metis min.absorb1 take_take takeWhile_eq_take)
  then show ?thesis
    by (metis in_set_takeD list_all_iff set_takeWhileD)
qed

lemma take_run_nonempty:
  assumes "0 < k" "k \<le> length (takeWhile P xs)"
  shows "take k xs \<noteq> []"
proof -
  have "length (takeWhile P xs) \<le> length xs" by (rule length_takeWhile_le)
  with assms show ?thesis by auto
qed

lemma match_dest_Some:
  assumes "match_dest s = Some (b, ds)"
  shows "\<exists>mid rest. s = b @ mid @ ''$'' @ ds @ rest \<and> b \<noteq> [] \<and> list_all dest_char b
           \<and> CHR 0x0A \<notin> set mid \<and> ds \<noteq> [] \<and> list_all is_digit ds"
proof -
  from assms obtain k where k: "0 < k" "k \<le> length (takeWhile dest_char s)" "b = take k s"
      and g: "match_gap (drop k s) = Some ds"
    unfolding match_dest_def using try_dest_Some by blast
  from g obtain mid rest where m: "drop k s = mid @ ''$'' @ ds @ rest" "CHR 0x0A \<notin> set mid" "ds \<noteq> []" "list_all is_digit ds"
    using match_gap_Some by blast
  have "s = b @ drop k s" by (simp add: k(3))
  with m k take_run_all[OF k(2)] take_run_nonempty[OF k(1,2)] show ?thesis by metis
qed

lemma match_to_Some:
  assumes "match_to s = Some (b, ds)"
  shows "\<exists>mid rest. s = '' to '' @ b @ mid @ ''$'' @ ds @ rest \<and> b \<noteq> [] \<and> list_all dest_char b
           \<and> CHR 0x0A \<notin> set mid \<and> ds \<noteq> [] \<and> list_all is_digit ds"
proof -
  from assms have t: "take 4 s = '' to ''" and d: "match_dest (drop 4 s) = Some (b, ds)"
    by (auto simp: match_to_def split: if_splits)
  from d obtain mid rest where m: "drop 4 s = b @ mid @ ''$'' @ ds @ rest" "b \<noteq> []" "list_all dest_char b"
      "CHR 0x0A \<notin> set mid" "ds \<noteq> []" "list_all is_digit ds"
    using match_dest_Some by blast
  have "s = take 4 s @ drop 4 s" by simp
  with t m have "s = '' to '' @ b @ mid @ ''$'' @ ds @ rest" by metis
  with m show ?thesis by blast
qed

lemma match_here_Some:
  assumes "match_here s = Some (a, b, ds)"
  shows "\<exists>mid rest. decomposes s [] a b mid ds rest"
proof -
  from assms obtain k where k: "0 < k" "k \<le> length (takeWhile origin_char s)" "a = take k s"
      and g: "match_to (drop k s) = Some (b, ds)"
    unfolding match_here_def using try_origin_Some by blast
  from g obtain mid rest where m: "drop k s = '' to '' @ b @ mid @ ''$'' @ ds @ rest" "b \<noteq> []" "list_all dest_char b"
      "CHR 0x0A \<notin> set mid" "ds \<noteq> []" "list_all is_digit ds"
    using match_to_Some by blast
  have "s = a @ drop k s" by (simp add: k(3))
  with m have "s = [] @ a @ '' to '' @ b @ mid @ ''$'' @ ds @ rest" by simp
  with m k take_run_all[OF k(2)] take_run_nonempty[OF k(1,2)]
  have "decomposes s [] a b mid ds rest" unfolding decomposes_def by metis
  then show ?thesis by blast
qed

lemma decomposes_Cons:
  "decomposes s pre a b mid ds rest \<Longrightarrow> decomposes (c # s) (c # pre) a b mid ds rest"
  by (simp add: decomposes_def)

lemma re_search_Some:
  "re_search s = Some (a, b, ds) \<Longrightarrow> \<exists>pre mid rest. decomposes s pre a b mid ds rest"
proof (induction s)
  case Nil
  then show ?case using match_here_Some by fastforce
next
  case (Cons c r)
  show ?case
  proof (cases "match_here (c # r)")
    case None
    with Cons.prems have "re_search r = Some (a, b, ds)" by simp
    then show ?thesis using Cons.IH decomposes_Cons by blast
  next
    case (Some g)
    with Cons.prems have "match_here (c # r) = Some (a, b, ds)" by simp
    then show ?thesis using match_here_Some by blast
  qed
qed

subsection \<open>Every title of the pattern is matched\<close>

lemma takeWhile_all_append:
  "list_all P u \<Longrightarrow> takeWhile P (u @ v) = u @ takeWhile P v"
  by (simp add: list_all_iff)

lemma match_price_digits:
  assumes "ds \<noteq> []" "list_all is_digit ds"
  shows "match_price (''$'' @ ds @ rest) = Some (ds @ takeWhile is_digit rest)"
  using assms by (simp add: match_price_def takeWhile_all_append)

lemma match_gap_complete:
  assumes "CHR 0x0A \<notin> set mid" "ds \<noteq> []" "list_all is_digit ds"
  shows "match_gap (mid @ ''$'' @ ds @ rest) \<noteq> None"
  using assms(1)
proof (induction mid)
  case Nil
  have "match_gap (''$'' @ ds @ rest) = Some (ds @ takeWhile is_digit rest)"
    using match_price_digits[OF assms(2,3), of rest] by simp
  then show ?case by simp
next
  case (Cons c mid)
  then show ?case by (cases "match_price (c # mid @ ''$'' @ ds @ rest)") auto
qed

lemma try_dest_complete:
  "0 < k \<Longrightarrow> k \<le> m \<Longrightarrow> match_gap (drop k s) \<noteq> None \<Longrightarrow> try_dest s m \<noteq> None"
proof (induction m)
  case 0
  then show ?case by simp
next
  case (Suc m)
  show ?case
  proof (cases "match_gap (drop (Suc m) s)")
    case None
    with Suc.prems have "k \<le> m" by (metis le_Suc_eq)
    with Suc have "try_dest s m \<noteq> None" by blast
    with None show ?thesis by simp
  next
    case (Some ds)
    then show ?thesis by simp
  qed
qed

lemma try_origin_complete:
  "0 < k \<Longrightarrow> k \<le> n \<Longrightarrow> match_to (drop k s) \<noteq> None \<Longrightarrow> try_origin s n \<noteq> None"
proof (induction n)
  case 0
  then show ?case by simp
next
  case (Suc n)
  show ?case
  proof (cases "match_to (drop (Suc n) s)")
    case None
    with Suc.prems have "k \<le> n" by (metis le_Suc_eq)
    with Suc have "try_origin s n \<noteq> None" by blast
    with None show ?thesis by simp
  next
    case (Some g)
    then show ?thesis by (simp split: prod.splits)
  qed
qed

lemma run_length_ge:
  "list_all P u \<Longrightarrow> length u \<le> length (takeWhile P (u @ v))"
  by (simp add: takeWhile_all_append)

lemma match_here_complete:
  assumes "decomposes s [] a b mid ds rest"
  shows "match_here s \<noteq> None"
proof -
  from assms have s: "s = a @ '' to '' @ b @ mid @ ''$'' @ ds @ rest"
    and a: "a \<noteq> []" "list_all origin_char a" and b: "b \<noteq> []" "list_all dest_char b"
    and m: "CHR 0x0A \<notin> set mid" and d: "ds \<noteq> []" "list_all is_digit ds"
    by (simp_all add: decomposes_def)
  let ?t = "b @ mid @ ''$'' @ ds @ rest"
  have g: "match_gap (drop (length b) ?t) \<noteq> None"
    using match_gap_complete[OF m d] by simp
  have lb: "length b \<le> length (takeWhile dest_char ?t)" using b(2) by (rule run_length_ge)
  have pb: "0 < length b" using b(1) by simp
  have "match_dest ?t \<noteq> None"
    unfolding match_dest_def by (rule try_dest_complete[OF pb lb g])
  then have "match_to ('' to '' @ ?t) \<noteq> None" by (simp add: match_to_def)
  then have t: "match_to (drop (length a) s) \<noteq> None" by (simp add: s)
  have la: "length a \<le> length (takeWhile origin_char s)"
    unfolding s using a(2) by (rule run_length_ge)
  have pa: "0 < length a" using a(1) by simp
  show ?thesis
    unfolding match_here_def by (rule try_origin_complete[OF pa la t])
qed

lemma re_search_here: "match_here s \<noteq> None \<Longrightarrow> re_search s \<noteq> None"
  by (cases s) auto

lemma re_search_complete:
  "decomposes s pre a b mid ds rest \<Longrightarrow> re_search s \<noteq> None"
proof (induction pre arbitrary: s)
  case Nil
  then show ?case using match_here_complete re_search_here by blast
next
  case (Cons c pre)
  then obtain r where r: "s = c # r" "decomposes r pre a b mid ds rest"
    by (auto simp: decomposes_def)
  then have "re_search r \<noteq> None" using Cons.IH by blast
  then show ?case using r(1) by (cases "match_here (c # r)") auto
qed

lemma re_search_iff: "re_search s \<noteq> None \<longleftrightarrow> pattern_matches s"
  unfolding pattern_matches_def using re_search_Some re_search_complete by (metis not_None_eq prod_cases3)

lemma py_float_digits:
  "ds \<noteq> [] \<Longrightarrow> list_all is_digit ds \<Longrightarrow> py_float ds = Inr (float_round (decimal ds))"
  by (simp add: py_float_def)

lemma parse_deal_try_never_raises: "parse_deal_try t l \<noteq> Inl e"
proof (cases "re_search t")
  case None
  then show ?thesis by (simp add: parse_deal_try_def)
next
  case (Some g)
  obtain a b ds where g: "g = (a, b, ds)" by (cases g)
  with Some have "ds \<noteq> []" "list_all is_digit ds"
    using re_search_Some[of t a b ds] by (auto simp: decomposes_def)
  then show ?thesis using Some g by (simp add: parse_deal_try_def py_float_digits)
qed

lemma parse_deal_Some:
  assumes "re_search t = Some (a, b, ds)"
  shows "parse_deal t l = Some \<lparr>title = t, link = l, price = Some (float_round (decimal ds)),
           currency = Some ''USD'', departure = Some (strip a), destination = Some (strip b)\<rparr>"
proof -
  have "ds \<noteq> []" "list_all is_digit ds"
    using re_search_Some[OF assms] by (auto simp: decomposes_def)
  then show ?thesis using assms by (simp add: parse_deal_def parse_deal_try_def py_float_digits)
qed

subsection \<open>Rounding keeps the numbers of at most 53 bits\<close>

lemma bit_len_le: "n < 2 ^ k \<Longrightarrow> bit_len n \<le> k"
proof (induction k arbitrary: n)
  case 0
  then show ?case by (simp add: bit_len.simps)
next
  case (Suc k)
  show ?case
  proof (cases "n = 0")
    case True
    then show ?thesis by (simp add: bit_len.simps)
  next
    case False
    have "n div 2 < 2 ^ k" using Suc.prems by simp
    then have "bit_len (n div 2) \<le> k" by (rule Suc.IH)
    then show ?thesis using False by (subst bit_len.simps) simp
  qed
qed

lemma bit_len_pow: "bit_len (2 ^ k) = Suc k"
proof (induction k)
  case 0
  show ?case by (simp add: bit_len.simps[of "Suc 0"] bit_len.simps[of 0])
next
  case (Suc k)
  have "bit_len (2 ^ Suc k) = Suc (bit_len (2 ^ Suc k div 2))"
    by (subst bit_len.simps) simp
  then show ?case using Suc by simp
qed

lemma float_round_pow53: "float_round (2 ^ 53) = real (2 ^ 53)"
proof -
  have b: "bit_len (2 ^ 53) = 54" using bit_len_pow[of 53] by simp
  have d: "(2::nat) ^ 53 div 2 = 2 ^ 52" by simp
  show ?thesis unfolding float_round_def b by (simp add: Let_def d)
qed

lemma float_round_exact:
  assumes "n \<le> 2 ^ 53"
  shows "float_round n = real n"
proof (cases "n = 2 ^ 53")
  case True
  then show ?thesis using float_round_pow53 by simp
next
  case False
  with assms have "n < 2 ^ 53" by simp
  then have "bit_len n \<le> 53" by (rule bit_len_le)
  then show ?thesis by (simp add: float_round_def)
qed

lemma float_round_past_53: "float_round 9007199254740993 = 9007199254740992"
proof -
  have "bit_len 9007199254740993 = 54" by (simp add: bit_len.simps)
  then show ?thesis by (simp add: float_round_def Let_def)
qed

lemma parse_deal_Some_exact:
  assumes "re_search t = Some (a, b, ds)" "decimal ds \<le> 2 ^ 53"
  shows "parse_deal t l = Some (expected_deal t l a b ds)"
  using parse_deal_Some[OF assms(1), of l] float_round_exact[OF assms(2)]
  by (simp add: expected_deal_def)

lemma parse_deal_None: "parse_deal t l = None \<longleftrightarrow> re_search t = None"
proof (cases "re_search t")
  case None
  then show ?thesis by (simp add: parse_deal_def parse_deal_try_def)
next
  case (Some g)
  obtain a b ds where g: "g = (a, b, ds)" by (cases g)
  then show ?thesis using Some parse_deal_Some[of t a b ds l] by simp
qed



subsection \<open>The match of a title whose split is pinned down\<close>

lemma str_contains_iff: "str_contains sub s \<longleftrightarrow> (\<exists>pre post. s = pre @ sub @ post)"
proof (induction s)
  case Nil
  then show ?case by auto
next
  case (Cons c cs)
  show ?case
  proof
    assume "str_contains sub (c # cs)"
    then consider "take (length sub) (c # cs) = sub" | "str_contains sub cs"
      by (auto split: if_splits)
    then show "\<exists>pre post. c # cs = pre @ sub @ post"
    proof cases
      case 1
      then have "c # cs = [] @ sub @ drop (length sub) (c # cs)"
        by (metis append_Nil append_take_drop_id)
      then show ?thesis by blast
    next
      case 2
      then obtain pre post where "cs = pre @ sub @ post" using Cons.IH by blast
      then have "c # cs = (c # pre) @ sub @ post" by simp
      then show ?thesis by blast
    qed
  next
    assume "\<exists>pre post. c # cs = pre @ sub @ post"
    then obtain pre post where eq: "c # cs = pre @ sub @ post" by blast
    show "str_contains sub (c # cs)"
    proof (cases pre)
      case Nil
      with eq have "take (length sub) (c # cs) = sub" by simp
      then show ?thesis by simp
    next
      case (Cons p ps)
      with eq have "cs = ps @ sub @ post" by simp
      then have "str_contains sub cs" using Cons.IH by blast
      then show ?thesis by simp
    qed
  qed
qed


lemma contains_to_at:
  assumes "take 4 (drop k s) = '' to ''"
  shows "str_contains '' to '' s"
proof -
  have "s = take k s @ '' to '' @ drop 4 (drop k s)"
    using assms by (metis append_take_drop_id)
  then show ?thesis unfolding str_contains_iff by blast
qed

lemma origin_char_to [simp]: "origin_char CHR '' ''" "origin_char CHR ''t''" "origin_char CHR ''o''"
  by (simp_all add: origin_char_def is_letter_def is_space_def ord_def)

lemma not_origin_dollar [simp]: "\<not> origin_char CHR ''$''"
  by (simp add: origin_char_def is_letter_def is_space_def ord_def)

lemma not_dest_dollar [simp]: "\<not> dest_char CHR ''$''"
  by (simp add: dest_char_def is_letter_def is_space_def ord_def)

lemma occurrence_in_run:
  assumes "k \<le> length (takeWhile origin_char x)" "take 4 (drop k x) = '' to ''"
  shows "k + 4 \<le> length (takeWhile origin_char x)"
proof -
  have kx: "k \<le> length x" using assms(1) length_takeWhile_le[of origin_char x] by simp
  have "drop k x = '' to '' @ drop 4 (drop k x)"
    using assms(2) by (metis append_take_drop_id)
  then have x: "x = take k x @ '' to '' @ drop 4 (drop k x)"
    by (metis append_take_drop_id)
  have "takeWhile origin_char x = take k x @ takeWhile origin_char ('' to '' @ drop 4 (drop k x))"
    using takeWhile_all_append[OF take_run_all[OF assms(1)]] x by metis
  then have "length (takeWhile origin_char x) = k + length (takeWhile origin_char ('' to '' @ drop 4 (drop k x)))"
    using kx by simp
  then show ?thesis by simp
qed

lemma take_drop_within:
  "j + n \<le> length u \<Longrightarrow> take n (drop j (u @ w)) = take n (drop j u)"
  by simp

lemma run_stops:
  "\<not> P c \<Longrightarrow> length (takeWhile P (u @ c # v)) \<le> length u"
  by (induction u) auto

lemma try_origin_none:
  "(\<And>k. 0 < k \<Longrightarrow> k \<le> n \<Longrightarrow> match_to (drop k s) = None) \<Longrightarrow> try_origin s n = None"
  by (induction n) auto

lemma try_origin_skip:
  "j \<le> n \<Longrightarrow> (\<And>k. j < k \<Longrightarrow> k \<le> n \<Longrightarrow> match_to (drop k s) = None) \<Longrightarrow>
     try_origin s n = try_origin s j"
proof (induction n)
  case 0
  then show ?case by simp
next
  case (Suc n)
  show ?case
  proof (cases "j = Suc n")
    case True
    then show ?thesis by simp
  next
    case False
    with Suc.prems(1) have jn: "j \<le> n" by simp
    then have "match_to (drop (Suc n) s) = None" using Suc.prems(2) by simp
    moreover have "try_origin s n = try_origin s j"
      using Suc.IH[OF jn] Suc.prems(2) by simp
    ultimately show ?thesis by simp
  qed
qed

lemma match_to_needs_literal: "take 4 s \<noteq> '' to '' \<Longrightarrow> match_to s = None"
  by (simp add: match_to_def)

text \<open>No match starts inside a prefix that ends in a non-origin character and has no " to ".\<close>

lemma match_here_prefix_none:
  assumes "p \<noteq> []" "\<not> origin_char (last p)" "\<not> str_contains '' to '' p"
  shows "match_here (p @ s) = None"
proof -
  let ?x = "p @ s"
  let ?n = "length (takeWhile origin_char ?x)"
  have px: "p @ s = butlast p @ last p # s" using assms(1) by simp
  have n: "length (takeWhile origin_char (p @ s)) \<le> length (butlast p)"
    by (subst px) (rule run_stops, rule assms(2))
  have "match_to (drop k ?x) = None" if "0 < k" "k \<le> ?n" for k
  proof (rule match_to_needs_literal, rule notI)
    assume lit: "take 4 (drop k ?x) = '' to ''"
    then have "k + 4 \<le> ?n" using occurrence_in_run[OF that(2)] by blast
    with n have "k + 4 \<le> length p" by simp
    then have "take 4 (drop k ?x) = take 4 (drop k p)" by (rule take_drop_within)
    with lit have "take 4 (drop k p) = '' to ''" by simp
    then have "str_contains '' to '' p" by (rule contains_to_at)
    with assms(3) show False by simp
  qed
  then show ?thesis unfolding match_here_def by (rule try_origin_none)
qed

lemma match_gap_exact:
  assumes "CHR 0x0A \<notin> set mid" "CHR ''$'' \<notin> set mid" "ds \<noteq> []" "list_all is_digit ds"
    "rest = [] \<or> \<not> is_digit (hd rest)"
  shows "match_gap (mid @ ''$'' @ ds @ rest) = Some ds"
  using assms(1,2)
proof (induction mid)
  case Nil
  have "takeWhile is_digit rest = []" using assms(5) by (cases rest) auto
  then show ?case using match_price_digits[OF assms(3,4), of rest] by simp
next
  case (Cons c mid)
  then have "match_price (c # mid @ ''$'' @ ds @ rest) = None"
    by (auto simp: match_price_def)
  with Cons show ?case by auto
qed

lemma match_dest_exact:
  assumes "b \<noteq> []" "list_all dest_char b" "mid = [] \<or> \<not> dest_char (hd mid)"
    "match_gap (mid @ ''$'' @ w) = Some ds"
  shows "match_dest (b @ mid @ ''$'' @ w) = Some (b, ds)"
proof -
  have "takeWhile dest_char (mid @ ''$'' @ w) = []" using assms(3) by (cases mid) auto
  then have run: "takeWhile dest_char (b @ mid @ ''$'' @ w) = b"
    using takeWhile_all_append[OF assms(2), of "mid @ ''$'' @ w"] by simp
  obtain m where m: "length b = Suc m" using assms(1) by (cases b) auto
  show ?thesis unfolding match_dest_def run m[symmetric, THEN arg_cong]
    using assms(4) m by simp
qed

lemma match_here_exact:
  assumes "canonical_shape pre a b mid ds rest"
  shows "match_here (a @ '' to '' @ b @ mid @ ''$'' @ ds @ rest) = Some (a, b, ds)"
proof -
  let ?s = "a @ '' to '' @ b @ mid @ ''$'' @ ds @ rest"
  let ?n = "length (takeWhile origin_char ?s)"
  from assms have a: "a \<noteq> []" "list_all origin_char a"
    and once: "\<not> str_contains '' to '' (''to '' @ b @ mid)"
    and b: "b \<noteq> []" "list_all dest_char b" "mid = [] \<or> \<not> dest_char (hd mid)"
    and m: "CHR 0x0A \<notin> set mid" "CHR ''$'' \<notin> set mid"
    and d: "ds \<noteq> []" "list_all is_digit ds" "rest = [] \<or> \<not> is_digit (hd rest)"
    by (simp_all add: canonical_shape_def title_shape_def)
  have gap: "match_gap (mid @ ''$'' @ ds @ rest) = Some ds"
    by (rule match_gap_exact[OF m d])
  have "match_dest (b @ mid @ ''$'' @ ds @ rest) = Some (b, ds)"
    by (rule match_dest_exact[OF b gap])
  then have to: "match_to (drop (length a) ?s) = Some (b, ds)"
    by (simp add: match_to_def)
  have la: "length a \<le> ?n" using a(2) by (rule run_length_ge)
  have upper: "?n \<le> length (a @ '' to '' @ b @ mid)"
    using run_stops[of origin_char "CHR ''$''" "a @ '' to '' @ b @ mid" "ds @ rest"] by simp
  have later: "match_to (drop k ?s) = None" if k1: "length a < k" and k2: "k \<le> ?n" for k
  proof (rule match_to_needs_literal, rule notI)
    assume lit: "take 4 (drop k ?s) = '' to ''"
    then have k4: "k + 4 \<le> ?n" using occurrence_in_run[OF k2] by blast
    obtain j where j: "k = length a + Suc j" using less_imp_Suc_add[OF k1] by auto
    have j4: "j + 4 \<le> length (''to '' @ b @ mid)" using k4 upper j by simp
    have eq: "drop k ?s = drop j ((''to '' @ b @ mid) @ ''$'' @ ds @ rest)"
      by (simp add: j)
    have "take 4 (drop j (''to '' @ b @ mid)) = take 4 (drop j ((''to '' @ b @ mid) @ ''$'' @ ds @ rest))"
      by (rule take_drop_within[OF j4, symmetric])
    also have "\<dots> = take 4 (drop k ?s)" by (simp only: eq)
    also have "\<dots> = '' to ''" by (rule lit)
    finally have "str_contains '' to '' (''to '' @ b @ mid)" by (rule contains_to_at)
    with once show False by simp
  qed
  obtain i where i: "length a = Suc i" using a(1) by (cases a) auto
  have "try_origin ?s ?n = try_origin ?s (length a)"
    using la later by (rule try_origin_skip)
  also have "\<dots> = Some (a, b, ds)"
    unfolding i using to i by simp
  finally show ?thesis unfolding match_here_def .
qed

lemma re_search_exact:
  assumes "canonical_shape pre a b mid ds rest"
  shows "re_search (pre @ a @ '' to '' @ b @ mid @ ''$'' @ ds @ rest) = Some (a, b, ds)"
proof -
  let ?s = "a @ '' to '' @ b @ mid @ ''$'' @ ds @ rest"
  have here: "match_here ?s = Some (a, b, ds)" by (rule match_here_exact[OF assms])
  have start: "re_search ?s = Some (a, b, ds)" using here by (cases ?s) auto
  have "pre = [] \<or> (\<not> origin_char (last pre) \<and> \<not> str_contains '' to '' pre)"
    using assms by (simp add: canonical_shape_def)
  then show ?thesis
  proof (induction pre)
    case Nil
    then show ?case using start by simp
  next
    case (Cons c pre)
    then have c: "\<not> origin_char (last (c # pre))" "\<not> str_contains '' to '' (c # pre)" by simp_all
    have "match_here ((c # pre) @ ?s) = None"
      by (rule match_here_prefix_none[OF _ c]) simp
    moreover have "pre = [] \<or> (\<not> origin_char (last pre) \<and> \<not> str_contains '' to '' pre)"
      using c by (cases pre) (auto split: if_splits)
    ultimately show ?case using Cons.IH by simp
  qed
qed

section \<open>Properties of the filter\<close>

lemma filter_deals_conv:
  "filter_deals deals prefs =
     filter (\<lambda>d. passes_departure d prefs \<and> passes_destination d prefs \<and> passes_price d prefs) deals"
  by (induction deals) (simp_all add: passes_departure_def passes_destination_def passes_price_def)

lemma skip_price_zero: "\<not> skip_price deal (prefs\<lparr>max_price := Some 0\<rparr>)"
  by (simp add: skip_price_def)

lemma skip_price_unset: "\<not> skip_price deal (prefs\<lparr>max_price := None\<rparr>)"
  by (simp add: skip_price_def)

lemma skip_departure_max_price [simp]:
  "skip_departure deal (prefs\<lparr>max_price := m\<rparr>) = skip_departure deal prefs"
  by (simp add: skip_departure_def split: option.splits)

lemma skip_destination_max_price [simp]:
  "skip_destination deal (prefs\<lparr>max_price := m\<rparr>) = skip_destination deal prefs"
  by (simp add: skip_destination_def split: option.splits)


section \<open>Properties of the entry loop\<close>

lemma collect_loop_append:
  "collect_loop (xs @ ys) acc =
     (case collect_loop xs acc of Inl e \<Rightarrow> Inl e | Inr acc' \<Rightarrow> collect_loop ys acc')"
  by (induction xs arbitrary: acc) (auto split: option.splits)

lemma collect_loop_drop:
  assumes "entry_title entry = Some t" "entry_link entry = Some l" "parse_deal t l = None"
  shows "collect_loop (before @ entry # after) acc = collect_loop (before @ after) acc"
proof -
  have "collect_loop (entry # after) acc' = collect_loop after acc'" for acc'
    using assms by simp
  then show ?thesis by (simp add: collect_loop_append split: sum.splits)
qed

lemma strip_all_space:
  assumes "list_all is_space a"
  shows "strip a = []"
proof -
  have d: "dropWhile is_space a = []"
    using assms by (induction a) simp_all
  show ?thesis unfolding strip_def d by simp
qed

lemma re_search_needs_to_and_dollar:
  assumes "re_search t = Some g"
  shows "str_contains '' to '' t \<and> CHR ''$'' \<in> set t"
proof -
  obtain a b ds where "g = (a, b, ds)" by (cases g)
  with assms obtain pre mid rest where "decomposes t pre a b mid ds rest"
    using re_search_Some by blast
  then have t: "t = (pre @ a) @ '' to '' @ (b @ mid @ ''$'' @ ds @ rest)"
    by (simp add: decomposes_def)
  then have "str_contains '' to '' t" unfolding str_contains_iff by blast
  moreover have "CHR ''$'' \<in> set t" by (subst t) simp
  ultimately show ?thesis by blast
qed

section \<open>The claims\<close>

subsection \<open>C1: what parse_deal returns on a title of the pattern\<close>

text \<open>
  C1, as the specification states it, fails. (1) When the destination itself holds
  \<open>" to "\<close>, the greedy origin runs up to the last \<open>" to "\<close>: for
  \<open>Boston to Lima to Rome $500\<close> split as origin \<open>Boston\<close> and destination
  \<open>Lima to Rome\<close>, the deal has departure \<open>Boston to Lima\<close>. (2) Letters and spaces
  that follow the destination are absorbed into it: for \<open>Boston to Lima for two $500\<close>
  split as destination \<open>Lima\<close>, the deal has destination \<open>Lima for two\<close>. (3) A
  newline in the gap stops the match: no deal is returned. (4) The price is a double:
  for \<open>Boston to Lima $9007199254740993\<close> it is 9007199254740992, not the number the
  digits spell.
\<close>

theorem parse_deal_shape_counterexample:
  "\<not> (title_shape ''Boston'' ''Lima to Rome '' [] ''500'' \<longrightarrow>
        parse_deal (''Boston'' @ '' to '' @ ''Lima to Rome '' @ [] @ ''$'' @ ''500'') ''u'' =
          Some (expected_deal (''Boston'' @ '' to '' @ ''Lima to Rome '' @ [] @ ''$'' @ ''500'')
                  ''u'' ''Boston'' ''Lima to Rome '' ''500''))
   \<and> \<not> (title_shape ''Boston'' ''Lima'' '' for two '' ''500'' \<longrightarrow>
        parse_deal (''Boston'' @ '' to '' @ ''Lima'' @ '' for two '' @ ''$'' @ ''500'') ''u'' =
          Some (expected_deal (''Boston'' @ '' to '' @ ''Lima'' @ '' for two '' @ ''$'' @ ''500'')
                  ''u'' ''Boston'' ''Lima'' ''500''))
   \<and> \<not> (title_shape ''Boston'' ''Lima'' [CHR ''!'', CHR 0x0A] ''500'' \<longrightarrow>
        parse_deal (''Boston'' @ '' to '' @ ''Lima'' @ [CHR ''!'', CHR 0x0A] @ ''$'' @ ''500'') ''u'' =
          Some (expected_deal (''Boston'' @ '' to '' @ ''Lima'' @ [CHR ''!'', CHR 0x0A] @ ''$'' @ ''500'')
                  ''u'' ''Boston'' ''Lima'' ''500''))
   \<and> \<not> (title_shape ''Boston'' ''Lima '' [] ''9007199254740993'' \<longrightarrow>
        parse_deal (''Boston'' @ '' to '' @ ''Lima '' @ [] @ ''$'' @ ''9007199254740993'') ''u'' =
          Some (expected_deal (''Boston'' @ '' to '' @ ''Lima '' @ [] @ ''$'' @ ''9007199254740993'')
                  ''u'' ''Boston'' ''Lima '' ''9007199254740993''))"
proof -
  have s1: "title_shape ''Boston'' ''Lima to Rome '' [] ''500''" by code_simp
  have s2: "title_shape ''Boston'' ''Lima'' '' for two '' ''500''" by code_simp
  have s3: "title_shape ''Boston'' ''Lima'' [CHR ''!'', CHR 0x0A] ''500''" by code_simp
  have s4: "title_shape ''Boston'' ''Lima '' [] ''9007199254740993''" by code_simp
  have r1: "re_search ''Boston to Lima to Rome $500'' = Some (''Boston to Lima'', ''Rome '', ''500'')"
    by code_simp
  have r2: "re_search ''Boston to Lima for two $500'' = Some (''Boston'', ''Lima for two '', ''500'')"
    by code_simp
  have r3: "re_search (''Boston to Lima!'' @ [CHR 0x0A] @ ''$500'') = None"
    by code_simp
  have r4: "re_search ''Boston to Lima $9007199254740993'' =
              Some (''Boston'', ''Lima '', ''9007199254740993'')"
    by code_simp
  have d1: "strip ''Boston to Lima'' \<noteq> strip ''Boston''" by code_simp
  have d2: "strip ''Lima for two '' \<noteq> strip ''Lima''" by code_simp
  have n4: "decimal ''9007199254740993'' = 9007199254740993"
    by (simp add: decimal_def digit_val_def ord_def)
  have p1: "parse_deal ''Boston to Lima to Rome $500'' ''u'' \<noteq>
              Some (expected_deal ''Boston to Lima to Rome $500'' ''u'' ''Boston'' ''Lima to Rome '' ''500'')"
    using parse_deal_Some[OF r1, of "''u''"] d1 by (simp add: expected_deal_def)
  have p2: "parse_deal ''Boston to Lima for two $500'' ''u'' \<noteq>
              Some (expected_deal ''Boston to Lima for two $500'' ''u'' ''Boston'' ''Lima'' ''500'')"
    using parse_deal_Some[OF r2, of "''u''"] d2 by (simp add: expected_deal_def)
  have p3: "parse_deal (''Boston to Lima!'' @ [CHR 0x0A] @ ''$500'') ''u'' = None"
    using r3 by (simp only: parse_deal_None)
  have p4: "parse_deal ''Boston to Lima $9007199254740993'' ''u'' \<noteq>
              Some (expected_deal ''Boston to Lima $9007199254740993'' ''u'' ''Boston'' ''Lima ''
                      ''9007199254740993'')"
    using parse_deal_Some[OF r4, of "''u''"]
    by (simp add: expected_deal_def n4 float_round_past_53)
  show ?thesis using s1 s2 s3 s4 p1 p2 p3 p4 by simp
qed

text \<open>
  C1, amended. For every title the pattern matches, \<open>parse_deal\<close> returns a deal
  with the title and link given, currency USD, and departure, destination and price
  taken from one split of the title into origin, \<open>" to "\<close>, destination, gap, dollar
  sign and digits: the departure is that origin stripped, the destination that
  destination stripped, and the price the number N the digits spell when N is at most
  \<open>2 ^ 53\<close> (a larger N is rounded to a double, and nothing is said of the price
  then). For a title \<open>pre @ A @ " to " @ B @ mid @ "$" @ N @ rest\<close> whose split is
  pinned down (\<open>canonical_shape\<close>: A is a non-empty run of letters and whitespace, B a
  non-empty run of letters, commas and whitespace that the gap does not continue, the
  gap has neither a dollar sign nor a newline, \<open>" to "\<close> does not occur again before the
  dollar sign, N is the whole run of digits after the dollar sign, and the prefix is
  empty or ends outside the origin's characters and has no \<open>" to "\<close>) and whose N is at
  most \<open>2 ^ 53\<close>, the split is this one: departure A stripped, destination B stripped,
  price N.
\<close>

theorem parse_deal_canonical:
  "(canonical_shape pre a b mid ds rest \<and> decimal ds \<le> 2 ^ 53 \<longrightarrow>
      parse_deal (pre @ a @ '' to '' @ b @ mid @ ''$'' @ ds @ rest) l =
        Some (expected_deal (pre @ a @ '' to '' @ b @ mid @ ''$'' @ ds @ rest) l a b ds))
   \<and> (decomposes t pre' a' b' mid' ds' rest' \<longrightarrow>
        (\<exists>p a'' b'' m ds'' r d. decomposes t p a'' b'' m ds'' r
           \<and> parse_deal t l = Some d
           \<and> title d = t \<and> link d = l \<and> currency d = Some ''USD''
           \<and> departure d = Some (strip a'') \<and> destination d = Some (strip b'')
           \<and> (decimal ds'' \<le> 2 ^ 53 \<longrightarrow> price d = Some (real (decimal ds'')))))"
proof (intro conjI impI)
  assume c: "canonical_shape pre a b mid ds rest \<and> decimal ds \<le> 2 ^ 53"
  then have r: "re_search (pre @ a @ '' to '' @ b @ mid @ ''$'' @ ds @ rest) = Some (a, b, ds)"
    using re_search_exact by blast
  show "parse_deal (pre @ a @ '' to '' @ b @ mid @ ''$'' @ ds @ rest) l =
          Some (expected_deal (pre @ a @ '' to '' @ b @ mid @ ''$'' @ ds @ rest) l a b ds)"
    using parse_deal_Some_exact[OF r] c by blast
next
  assume "decomposes t pre' a' b' mid' ds' rest'"
  then have "re_search t \<noteq> None" by (rule re_search_complete)
  then obtain a'' b'' ds'' where r: "re_search t = Some (a'', b'', ds'')" by auto
  then obtain p m r' where dec: "decomposes t p a'' b'' m ds'' r'"
    using re_search_Some by blast
  let ?d = "\<lparr>title = t, link = l, price = Some (float_round (decimal ds'')),
             currency = Some ''USD'', departure = Some (strip a''),
             destination = Some (strip b'')\<rparr>"
  have pd: "parse_deal t l = Some ?d" by (rule parse_deal_Some[OF r])
  have pr: "decimal ds'' \<le> 2 ^ 53 \<longrightarrow> price ?d = Some (real (decimal ds''))"
    by (simp add: float_round_exact)
  have fields: "title ?d = t \<and> link ?d = l \<and> currency ?d = Some ''USD''
      \<and> departure ?d = Some (strip a'') \<and> destination ?d = Some (strip b'')"
    by simp
  show "\<exists>p a'' b'' m ds'' r d. decomposes t p a'' b'' m ds'' r
           \<and> parse_deal t l = Some d
           \<and> title d = t \<and> link d = l \<and> currency d = Some ''USD''
           \<and> departure d = Some (strip a'') \<and> destination d = Some (strip b'')
           \<and> (decimal ds'' \<le> 2 ^ 53 \<longrightarrow> price d = Some (real (decimal ds'')))"
    using dec pd pr fields by blast
qed

text \<open>C1, witness: a title with a prefix, a gap and a rest, whose split is pinned
  down; and the title of the counterexample, split the way the specification reads it
  and parsed with the split the matcher picks.\<close>

theorem parse_deal_canonical_witness:
  "canonical_shape ''Deal:'' '' New York'' ''Paris, France '' ''(nonstop) '' ''450'' '' return''
   \<and> decimal ''450'' \<le> 2 ^ 53
   \<and> parse_deal ''Deal: New York to Paris, France (nonstop) $450 return'' ''u'' =
       Some \<lparr>title = ''Deal: New York to Paris, France (nonstop) $450 return'', link = ''u'',
             price = Some 450, currency = Some ''USD'', departure = Some ''New York'',
             destination = Some ''Paris, France''\<rparr>
   \<and> decomposes ''Boston to Lima to Rome $500'' [] ''Boston'' ''Lima to Rome '' [] ''500'' []
   \<and> (\<exists>p a b m ds r d. decomposes ''Boston to Lima to Rome $500'' p a b m ds r
         \<and> parse_deal ''Boston to Lima to Rome $500'' ''u'' = Some d
         \<and> title d = ''Boston to Lima to Rome $500'' \<and> link d = ''u''
         \<and> currency d = Some ''USD''
         \<and> departure d = Some (strip a) \<and> destination d = Some (strip b)
         \<and> (decimal ds \<le> 2 ^ 53 \<longrightarrow> price d = Some (real (decimal ds))))"
proof -
  have h: "canonical_shape ''Deal:'' '' New York'' ''Paris, France '' ''(nonstop) '' ''450'' '' return''"
    by code_simp
  have a: "strip '' New York'' = ''New York''" by code_simp
  have b: "strip ''Paris, France '' = ''Paris, France''" by code_simp
  have n: "decimal ''450'' = 450" by code_simp
  have k: "decimal ''450'' \<le> 2 ^ 53" unfolding n by simp
  have d: "decomposes ''Boston to Lima to Rome $500'' [] ''Boston'' ''Lima to Rome '' [] ''500'' []"
    by code_simp
  note inst = parse_deal_canonical[of "''Deal:''" "'' New York''" "''Paris, France ''"
      "''(nonstop) ''" "''450''" "'' return''" "''u''" "''Boston to Lima to Rome $500''"
      "[]" "''Boston''" "''Lima to Rome ''" "[]" "''500''" "[]"]
  have "parse_deal (''Deal:'' @ '' New York'' @ '' to '' @ ''Paris, France '' @ ''(nonstop) ''
            @ ''$'' @ ''450'' @ '' return'') ''u'' =
          Some (expected_deal (''Deal:'' @ '' New York'' @ '' to '' @ ''Paris, France ''
            @ ''(nonstop) '' @ ''$'' @ ''450'' @ '' return'') ''u'' '' New York''
            ''Paris, France '' ''450'')"
    using h k inst by blast
  then have first: "parse_deal ''Deal: New York to Paris, France (nonstop) $450 return'' ''u'' =
       Some \<lparr>title = ''Deal: New York to Paris, France (nonstop) $450 return'', link = ''u'',
             price = Some 450, currency = Some ''USD'', departure = Some ''New York'',
             destination = Some ''Paris, France''\<rparr>"
    by (simp add: expected_deal_def a b n)
  have second: "\<exists>p a b m ds r d. decomposes ''Boston to Lima to Rome $500'' p a b m ds r
         \<and> parse_deal ''Boston to Lima to Rome $500'' ''u'' = Some d
         \<and> title d = ''Boston to Lima to Rome $500'' \<and> link d = ''u''
         \<and> currency d = Some ''USD''
         \<and> departure d = Some (strip a) \<and> destination d = Some (strip b)
         \<and> (decimal ds \<le> 2 ^ 53 \<longrightarrow> price d = Some (real (decimal ds)))"
    using d inst by blast
  show ?thesis using h k first d second by blast
qed

subsection \<open>C7: parse_deal returns absent and the caller goes on\<close>

text \<open>
  C7. \<open>parse_deal\<close> is a total function into an optional deal. The body of its
  \<open>try\<close> raises nothing; \<open>parse_deal\<close> returns \<open>None\<close> where the body raises
  and the body's value where it does not;
  \<open>parse_deal\<close> returns \<open>None\<close> exactly on the titles the pattern does not match, in
  particular on every title without \<open>" to "\<close> or without a dollar sign; and the loop
  over the entries of a feed drops an entry whose title does not parse and carries on
  with the entries around it.
\<close>

theorem parse_deal_absent:
  "parse_deal_try t l \<noteq> Inl e
   \<and> (case parse_deal_try t l of Inl x \<Rightarrow> parse_deal t l = None | Inr r \<Rightarrow> parse_deal t l = r)
   \<and> (parse_deal t l = None) = (\<not> pattern_matches t)
   \<and> (\<not> (str_contains '' to '' t \<and> CHR ''$'' \<in> set t) \<longrightarrow> parse_deal t l = None)
   \<and> (entry_title entry = Some t \<and> entry_link entry = Some l \<and> parse_deal t l = None \<longrightarrow>
        collect_deals (before @ entry # after) = collect_deals (before @ after))"
proof (intro conjI impI)
  show "parse_deal_try t l \<noteq> Inl e" by (rule parse_deal_try_never_raises)
  show "case parse_deal_try t l of Inl x \<Rightarrow> parse_deal t l = None | Inr r \<Rightarrow> parse_deal t l = r"
    by (simp add: parse_deal_def split: sum.splits)
  show "(parse_deal t l = None) = (\<not> pattern_matches t)"
    by (metis parse_deal_None re_search_iff)
  show "parse_deal t l = None" if "\<not> (str_contains '' to '' t \<and> CHR ''$'' \<in> set t)"
    using that re_search_needs_to_and_dollar[of t] parse_deal_None[of t l]
    by (cases "re_search t") auto
  show "collect_deals (before @ entry # after) = collect_deals (before @ after)"
    if "entry_title entry = Some t \<and> entry_link entry = Some l \<and> parse_deal t l = None"
    unfolding collect_deals_def using that collect_loop_drop by blast
qed

text \<open>C7, witness: a feed of three entries, the middle one a title that does not parse.\<close>

theorem parse_deal_absent_witness:
  "\<not> pattern_matches ''Flash sale today''
   \<and> \<not> (str_contains '' to '' ''Flash sale today'' \<and> CHR ''$'' \<in> set ''Flash sale today'')
   \<and> parse_deal ''Flash sale today'' ''u2'' = None
   \<and> collect_deals
        [\<lparr>entry_title = Some ''Rome to Oslo $90'', entry_link = Some ''u1''\<rparr>,
         \<lparr>entry_title = Some ''Flash sale today'', entry_link = Some ''u2''\<rparr>,
         \<lparr>entry_title = Some ''Lima to Quito $70'', entry_link = Some ''u3''\<rparr>]
       = collect_deals
        [\<lparr>entry_title = Some ''Rome to Oslo $90'', entry_link = Some ''u1''\<rparr>,
         \<lparr>entry_title = Some ''Lima to Quito $70'', entry_link = Some ''u3''\<rparr>]"
proof -
  let ?e1 = "\<lparr>entry_title = Some ''Rome to Oslo $90'', entry_link = Some ''u1''\<rparr>"
  let ?e2 = "\<lparr>entry_title = Some ''Flash sale today'', entry_link = Some ''u2''\<rparr>"
  let ?e3 = "\<lparr>entry_title = Some ''Lima to Quito $70'', entry_link = Some ''u3''\<rparr>"
  note inst = parse_deal_absent[of "''Flash sale today''" "''u2''" ValueError ?e2 "[?e1]" "[?e3]"]
  have c: "\<not> (str_contains '' to '' ''Flash sale today'' \<and> CHR ''$'' \<in> set ''Flash sale today'')"
    by code_simp
  with inst have n: "parse_deal ''Flash sale today'' ''u2'' = None" by blast
  with inst have m: "\<not> pattern_matches ''Flash sale today''" by blast
  have "collect_deals ([?e1] @ ?e2 # [?e3]) = collect_deals ([?e1] @ [?e3])"
    using inst n by simp
  then show ?thesis using c n m by simp
qed

subsection \<open>C9: an empty departure passes the departure check\<close>

text \<open>
  C9. For every preference record, a deal whose departure is the empty string passes
  the departure check of \<open>filter_deals\<close>, whatever the list of airports. \<open>parse_deal\<close>
  produces such a deal whenever the origin the pattern captures is all whitespace, as
  for the title \<open>"  to Paris $100"\<close>.
\<close>

theorem empty_departure_passes:
  "passes_departure (deal\<lparr>departure := Some []\<rparr>) prefs
   \<and> (re_search t = Some (a, b, ds) \<and> list_all is_space a \<longrightarrow>
        (\<exists>d. parse_deal t l = Some d \<and> departure d = Some [] \<and> passes_departure d prefs))
   \<and> (\<exists>d. parse_deal ''  to Paris $100'' l = Some d \<and> departure d = Some []
            \<and> passes_departure d prefs)"
proof (intro conjI impI)
  show "passes_departure (deal\<lparr>departure := Some []\<rparr>) prefs"
    by (simp add: passes_departure_def skip_departure_def)
  have gen: "\<exists>d. parse_deal t' l = Some d \<and> departure d = Some [] \<and> passes_departure d prefs"
    if "re_search t' = Some (a', b', ds')" "list_all is_space a'" for t' a' b' ds'
    using parse_deal_Some[OF that(1), of l] strip_all_space[OF that(2)]
    by (simp add: passes_departure_def skip_departure_def)
  show "\<exists>d. parse_deal t l = Some d \<and> departure d = Some [] \<and> passes_departure d prefs"
    if "re_search t = Some (a, b, ds) \<and> list_all is_space a"
    using that gen by blast
  have r: "re_search ''  to Paris $100'' = Some ('' '', ''Paris '', ''100'')" by code_simp
  have s: "list_all is_space '' ''" by code_simp
  show "\<exists>d. parse_deal ''  to Paris $100'' l = Some d \<and> departure d = Some []
            \<and> passes_departure d prefs"
    by (rule gen[OF r s])
qed

text \<open>C9, witness: the title above against a preference for JFK only.\<close>

theorem empty_departure_passes_witness:
  "re_search ''  to Paris $100'' = Some ('' '', ''Paris '', ''100'') \<and> list_all is_space '' ''
   \<and> (\<exists>d. parse_deal ''  to Paris $100'' ''u'' = Some d \<and> departure d = Some []
         \<and> passes_departure d
             \<lparr>departure_airports = [''JFK''], destination_keywords = [''Paris''],
              max_price = None, pref_currency = Some ''USD''\<rparr>)"
proof -
  have r: "re_search ''  to Paris $100'' = Some ('' '', ''Paris '', ''100'')" by code_simp
  have s: "list_all is_space '' ''" by code_simp
  show ?thesis
    using r s empty_departure_passes[of
        "\<lparr>title = ''t'', link = ''u'', price = None, currency = None,
          departure = None, destination = None\<rparr>"
        "\<lparr>departure_airports = [''JFK''], destination_keywords = [''Paris''],
          max_price = None, pref_currency = Some ''USD''\<rparr>"
        "''  to Paris $100''" "'' ''" "''Paris ''" "''100''" "''u''"]
    by blast
qed

section \<open>Properties of the scrapers\<close>

lemma scrape_stale:
  assumes "\<not> (now - timestamp (cache w src) < CACHE_TTL)"
  shows "scrape src now f w =
           (case fetch_and_parse f of
              Inl e \<Rightarrow> ([], w\<lparr>fetch_log := fetch_log w @ [src]\<rparr>)
            | Inr deals \<Rightarrow>
                (deals, w\<lparr>fetch_log := fetch_log w @ [src],
                          cache := (cache w)(src := \<lparr>timestamp = now, data = deals\<rparr>)\<rparr>))"
  using assms by (simp add: scrape_def Let_def split: sum.splits)

lemma scrape_fresh:
  assumes "now - timestamp (cache w src) < CACHE_TTL"
  shows "scrape src now f w = (data (cache w src), w)"
  using assms by (simp add: scrape_def)

subsection \<open>C2: the departure check\<close>

text \<open>
  C2, as the specification states it, fails: a deal whose departure is present but
  empty passes the check although the empty string is not among the airports.
\<close>

theorem departure_predicate_counterexample:
  "departure \<lparr>title = ''t'', link = ''u'', price = None, currency = None,
              departure = Some [], destination = None\<rparr> = Some []
   \<and> passes_departure
       \<lparr>title = ''t'', link = ''u'', price = None, currency = None,
        departure = Some [], destination = None\<rparr>
       \<lparr>departure_airports = [''JFK''], destination_keywords = [], max_price = None,
        pref_currency = None\<rparr>
   \<and> [] \<notin> set (departure_airports
       \<lparr>departure_airports = [''JFK''], destination_keywords = [], max_price = None,
        pref_currency = None\<rparr>)"
  by (simp add: passes_departure_def skip_departure_def)

text \<open>
  C2, amended. For every deal and every preference record: if the deal's departure is
  present and not empty, the deal passes the departure check of \<open>filter_deals\<close> if and
  only if its departure is an exact member of \<open>departure_airports\<close>; a deal whose
  departure is absent or empty always passes it.
\<close>

theorem departure_predicate:
  "(departure deal = Some dep \<and> dep \<noteq> [] \<longrightarrow>
      passes_departure deal prefs = (dep \<in> set (departure_airports prefs)))
   \<and> (departure deal = None \<or> departure deal = Some [] \<longrightarrow> passes_departure deal prefs)"
  by (auto simp: passes_departure_def skip_departure_def)

text \<open>C2, witness: airports JFK only; a deal from LAX is excluded, a deal with no
  departure is kept.\<close>

theorem departure_predicate_witness:
  "\<not> passes_departure
       \<lparr>title = ''t'', link = ''u'', price = None, currency = None,
        departure = Some ''LAX'', destination = None\<rparr>
       \<lparr>departure_airports = [''JFK''], destination_keywords = [], max_price = None,
        pref_currency = None\<rparr>
   \<and> passes_departure
       \<lparr>title = ''t'', link = ''u'', price = None, currency = None,
        departure = None, destination = None\<rparr>
       \<lparr>departure_airports = [''JFK''], destination_keywords = [], max_price = None,
        pref_currency = None\<rparr>
   \<and> filter_deals
       [\<lparr>title = ''t'', link = ''u'', price = None, currency = None,
         departure = Some ''LAX'', destination = None\<rparr>,
        \<lparr>title = ''t'', link = ''u'', price = None, currency = None,
         departure = None, destination = None\<rparr>]
       \<lparr>departure_airports = [''JFK''], destination_keywords = [], max_price = None,
        pref_currency = None\<rparr>
     = [\<lparr>title = ''t'', link = ''u'', price = None, currency = None,
         departure = None, destination = None\<rparr>]"
proof -
  let ?p = "\<lparr>departure_airports = [''JFK''], destination_keywords = [], max_price = None,
             pref_currency = None\<rparr>"
  let ?lax = "\<lparr>title = ''t'', link = ''u'', price = None, currency = None,
               departure = Some ''LAX'', destination = None\<rparr>"
  let ?none = "\<lparr>title = ''t'', link = ''u'', price = None, currency = None,
                departure = None, destination = None\<rparr>"
  have a: "\<not> passes_departure ?lax ?p"
    using departure_predicate[of ?lax "''LAX''" ?p] by simp
  have b: "passes_departure ?none ?p"
    using departure_predicate[of ?none "''LAX''" ?p] by simp
  have c: "passes_destination ?lax ?p" "passes_destination ?none ?p"
    "passes_price ?lax ?p" "passes_price ?none ?p"
    by (simp_all add: passes_destination_def skip_destination_def passes_price_def skip_price_def)
  show ?thesis using a b c by (simp add: filter_deals_conv)
qed

subsection \<open>C5: the destination check\<close>

text \<open>
  C5, as the specification states it, fails: a deal whose destination is present but
  empty passes the check although no keyword occurs in it.
\<close>

theorem destination_predicate_counterexample:
  "destination \<lparr>title = ''t'', link = ''u'', price = None, currency = None,
                departure = None, destination = Some []\<rparr> = Some []
   \<and> passes_destination
       \<lparr>title = ''t'', link = ''u'', price = None, currency = None,
        departure = None, destination = Some []\<rparr>
       \<lparr>departure_airports = [], destination_keywords = [''Paris''], max_price = None,
        pref_currency = None\<rparr>
   \<and> \<not> str_contains (lower ''Paris'') (lower [])"
  by (simp add: passes_destination_def skip_destination_def lower_def)

text \<open>
  C5, amended. For every deal and every preference record: if the deal's destination
  is present and not empty, the deal passes the destination check of \<open>filter_deals\<close>
  if and only if at least one keyword of \<open>destination_keywords\<close>, lower-cased, occurs
  as a contiguous piece of the lower-cased destination; a deal whose destination is
  absent or empty always passes it.
\<close>

theorem destination_predicate:
  "(destination deal = Some dest \<and> dest \<noteq> [] \<longrightarrow>
      passes_destination deal prefs =
        (\<exists>kw \<in> set (destination_keywords prefs). \<exists>pre post. lower dest = pre @ lower kw @ post))
   \<and> (destination deal = None \<or> destination deal = Some [] \<longrightarrow> passes_destination deal prefs)"
  by (auto simp: passes_destination_def skip_destination_def list_ex_iff str_contains_iff)

text \<open>C5, witness: keyword Paris; "Paris, France" is kept, "London" is excluded, a
  deal with no destination is kept.\<close>

theorem destination_predicate_witness:
  "passes_destination
       \<lparr>title = ''t'', link = ''u'', price = None, currency = None,
        departure = None, destination = Some ''Paris, France''\<rparr>
       \<lparr>departure_airports = [], destination_keywords = [''Paris''], max_price = None,
        pref_currency = None\<rparr>
   \<and> \<not> passes_destination
       \<lparr>title = ''t'', link = ''u'', price = None, currency = None,
        departure = None, destination = Some ''London''\<rparr>
       \<lparr>departure_airports = [], destination_keywords = [''Paris''], max_price = None,
        pref_currency = None\<rparr>
   \<and> passes_destination
       \<lparr>title = ''t'', link = ''u'', price = None, currency = None,
        departure = None, destination = None\<rparr>
       \<lparr>departure_airports = [], destination_keywords = [''Paris''], max_price = None,
        pref_currency = None\<rparr>"
proof -
  let ?p = "\<lparr>departure_airports = [], destination_keywords = [''Paris''], max_price = None,
             pref_currency = None\<rparr>"
  let ?paris = "\<lparr>title = ''t'', link = ''u'', price = None, currency = None,
                 departure = None, destination = Some ''Paris, France''\<rparr>"
  let ?london = "\<lparr>title = ''t'', link = ''u'', price = None, currency = None,
                  departure = None, destination = Some ''London''\<rparr>"
  let ?none = "\<lparr>title = ''t'', link = ''u'', price = None, currency = None,
                departure = None, destination = None\<rparr>"
  have in_paris: "str_contains (lower ''Paris'') (lower ''Paris, France'')" by code_simp
  have not_london: "\<not> str_contains (lower ''Paris'') (lower ''London'')" by code_simp
  have a: "passes_destination ?paris ?p"
    using destination_predicate[of ?paris "''Paris, France''" ?p] in_paris
    by (simp add: str_contains_iff)
  have b: "\<not> passes_destination ?london ?p"
    using destination_predicate[of ?london "''London''" ?p] not_london
    by (simp add: str_contains_iff)
  have c: "passes_destination ?none ?p"
    using destination_predicate[of ?none "''London''" ?p] by simp
  show ?thesis using a b c by simp
qed

subsection \<open>C6: the price check\<close>

text \<open>
  C6. For every deal and every preference record with a positive \<open>max_price\<close>: if
  the deal's price is set, the deal passes the price check of \<open>filter_deals\<close> if and
  only if its price is at most \<open>max_price\<close>; if \<open>max_price\<close> or the price is absent,
  the deal passes.
\<close>

theorem price_predicate:
  "(max_price prefs = Some m \<and> 0 < m \<and> price deal = Some p \<longrightarrow>
      passes_price deal prefs = (p \<le> m))
   \<and> (max_price prefs = None \<or> price deal = None \<longrightarrow> passes_price deal prefs)"
  by (auto simp: passes_price_def skip_price_def split: option.splits)

text \<open>C6, witness: a maximum of 300; a deal at 450 is excluded, a deal at 300 and a
  deal with no price are kept.\<close>

theorem price_predicate_witness:
  "\<not> passes_price
       \<lparr>title = ''t'', link = ''u'', price = Some 450, currency = Some ''USD'',
        departure = None, destination = None\<rparr>
       \<lparr>departure_airports = [], destination_keywords = [], max_price = Some 300,
        pref_currency = None\<rparr>
   \<and> passes_price
       \<lparr>title = ''t'', link = ''u'', price = Some 300, currency = Some ''USD'',
        departure = None, destination = None\<rparr>
       \<lparr>departure_airports = [], destination_keywords = [], max_price = Some 300,
        pref_currency = None\<rparr>
   \<and> passes_price
       \<lparr>title = ''t'', link = ''u'', price = None, currency = None,
        departure = None, destination = None\<rparr>
       \<lparr>departure_airports = [], destination_keywords = [], max_price = Some 300,
        pref_currency = None\<rparr>"
proof -
  let ?p = "\<lparr>departure_airports = [], destination_keywords = [], max_price = Some 300,
             pref_currency = None\<rparr>"
  let ?d450 = "\<lparr>title = ''t'', link = ''u'', price = Some 450, currency = Some ''USD'',
                departure = None, destination = None\<rparr>"
  let ?d300 = "\<lparr>title = ''t'', link = ''u'', price = Some 300, currency = Some ''USD'',
                departure = None, destination = None\<rparr>"
  let ?none = "\<lparr>title = ''t'', link = ''u'', price = None, currency = None,
                departure = None, destination = None\<rparr>"
  have a: "\<not> passes_price ?d450 ?p" using price_predicate[of ?p 300 ?d450 450] by simp
  have b: "passes_price ?d300 ?p" using price_predicate[of ?p 300 ?d300 300] by simp
  have c: "passes_price ?none ?p" using price_predicate[of ?p 300 ?none 300] by simp
  show ?thesis using a b c by simp
qed

subsection \<open>C10: a maximum price of zero\<close>

text \<open>
  C10. When \<open>max_price\<close> is exactly 0, every deal passes the price check whatever its
  price, and \<open>filter_deals\<close> returns what it returns with \<open>max_price\<close> unset.
\<close>

theorem zero_max_price:
  "passes_price deal (prefs\<lparr>max_price := Some 0\<rparr>)
   \<and> filter_deals deals (prefs\<lparr>max_price := Some 0\<rparr>) = filter_deals deals (prefs\<lparr>max_price := None\<rparr>)"
proof
  show "passes_price deal (prefs\<lparr>max_price := Some 0\<rparr>)"
    by (simp add: passes_price_def skip_price_zero)
  show "filter_deals deals (prefs\<lparr>max_price := Some 0\<rparr>) = filter_deals deals (prefs\<lparr>max_price := None\<rparr>)"
    by (induction deals) (simp_all add: skip_price_zero skip_price_unset)
qed

subsection \<open>C3: a refresh that fails\<close>

text \<open>
  C3. For every source: when a refresh is due (\<open>now - timestamp \<ge> 300\<close>) and the
  fetch, or the loop over its entries, raises, the call returns the empty list and the
  cache is what it was before the call: the stale data is not served.
\<close>

theorem failed_refresh:
  "\<not> (now - timestamp (cache w src) < 300) \<and> fetch_and_parse f = Inl e \<longrightarrow>
     fst (scrape src now f w) = []
     \<and> cache (snd (scrape src now f w)) = cache w
     \<and> timestamp (cache (snd (scrape src now f w)) src) = timestamp (cache w src)
     \<and> data (cache (snd (scrape src now f w)) src) = data (cache w src)"
  by (simp add: scrape_stale CACHE_TTL_def)

text \<open>C3, witness: a stale entry that holds a deal, and a fetch that raises.\<close>

theorem failed_refresh_witness:
  "\<not> ((1000::real) - timestamp (cache
         \<lparr>cache = (\<lambda>_. \<lparr>timestamp = 100, data = [expected_deal ''t'' ''u'' ''a'' ''b'' ''5'']\<rparr>),
          fetch_log = []\<rparr> secret_flying) < 300)
   \<and> fetch_and_parse (Inl FetchError) = Inl FetchError
   \<and> fst (scrape_secret_flying 1000 (Inl FetchError)
         \<lparr>cache = (\<lambda>_. \<lparr>timestamp = 100, data = [expected_deal ''t'' ''u'' ''a'' ''b'' ''5'']\<rparr>),
          fetch_log = []\<rparr>) = []
   \<and> data (cache (snd (scrape_secret_flying 1000 (Inl FetchError)
         \<lparr>cache = (\<lambda>_. \<lparr>timestamp = 100, data = [expected_deal ''t'' ''u'' ''a'' ''b'' ''5'']\<rparr>),
          fetch_log = []\<rparr>)) secret_flying) = [expected_deal ''t'' ''u'' ''a'' ''b'' ''5'']"
proof -
  let ?w = "\<lparr>cache = (\<lambda>_. \<lparr>timestamp = 100, data = [expected_deal ''t'' ''u'' ''a'' ''b'' ''5'']\<rparr>),
             fetch_log = []\<rparr>"
  have h: "\<not> ((1000::real) - timestamp (cache ?w secret_flying) < 300)" by simp
  have g: "fetch_and_parse (Inl FetchError) = Inl FetchError" by (simp add: fetch_and_parse_def)
  show ?thesis
    using h g failed_refresh[of 1000 ?w secret_flying "Inl FetchError" FetchError]
    by (simp add: scrape_secret_flying_def)
qed

subsection \<open>C4: a cache hit, and two calls at the same time\<close>

text \<open>
  C4, as the specification states it, fails in its last part: when the first of two
  calls at the same time refreshes and its fetch raises, the cache keeps its old
  timestamp, so the second call fetches again: two fetches, not one.
\<close>

theorem two_calls_counterexample:
  "fetch_log (snd (scrape secret_flying 1000 (Inr [])
       (snd (scrape secret_flying 1000 (Inl FetchError) initial_world))))
     = [secret_flying, secret_flying]
   \<and> length (fetch_log (snd (scrape secret_flying 1000 (Inr [])
       (snd (scrape secret_flying 1000 (Inl FetchError) initial_world)))))
     \<noteq> length (fetch_log initial_world) + 1"
  by (simp add: scrape_def Let_def CACHE_TTL_def initial_world_def fetch_and_parse_def
      collect_deals_def)

text \<open>
  C4, amended. For every source, if \<open>now\<close> minus the cached timestamp is strictly
  less than 300, the call returns the cached data, fetches nothing and leaves the whole
  world (every cache entry and the fetch log) as it was. Hence, when a call refreshes a
  stale entry and the refresh succeeds, a second call at the same time returns the same
  deals from the cache and changes nothing: the two calls perform exactly one fetch.
\<close>

theorem cache_hit:
  "(now - timestamp (cache w src) < 300 \<longrightarrow> scrape src now f w = (data (cache w src), w))
   \<and> (\<not> (now' - timestamp (cache w' src) < 300) \<and> fetch_and_parse f1 = Inr deals \<longrightarrow>
        fst (scrape src now' f1 w') = deals
        \<and> scrape src now' f2 (snd (scrape src now' f1 w')) = (deals, snd (scrape src now' f1 w'))
        \<and> fetch_log (snd (scrape src now' f2 (snd (scrape src now' f1 w')))) = fetch_log w' @ [src])"
proof (intro conjI impI)
  show "scrape src now f w = (data (cache w src), w)" if "now - timestamp (cache w src) < 300"
    using that by (simp add: scrape_fresh CACHE_TTL_def)
next
  assume h: "\<not> (now' - timestamp (cache w' src) < 300) \<and> fetch_and_parse f1 = Inr deals"
  let ?w1 = "w'\<lparr>fetch_log := fetch_log w' @ [src],
               cache := (cache w')(src := \<lparr>timestamp = now', data = deals\<rparr>)\<rparr>"
  have first: "scrape src now' f1 w' = (deals, ?w1)"
    using h by (simp add: scrape_stale CACHE_TTL_def)
  have "now' - timestamp (cache ?w1 src) < CACHE_TTL" by (simp add: CACHE_TTL_def)
  then have second: "scrape src now' f2 ?w1 = (data (cache ?w1 src), ?w1)"
    by (rule scrape_fresh)
  show "fst (scrape src now' f1 w') = deals" using first by simp
  show "scrape src now' f2 (snd (scrape src now' f1 w')) = (deals, snd (scrape src now' f1 w'))"
    using first second by simp
  show "fetch_log (snd (scrape src now' f2 (snd (scrape src now' f1 w')))) = fetch_log w' @ [src]"
    using first second by simp
qed

text \<open>C4, witness: a first call on the initial world whose fetch yields one entry,
  then calls 0 and 299 seconds later.\<close>

theorem cache_hit_witness:
  "scrape secret_flying 1000
     (Inr [\<lparr>entry_title = Some ''Rome to Oslo $90'', entry_link = Some ''u1''\<rparr>]) initial_world
     = ([expected_deal ''Rome to Oslo $90'' ''u1'' ''Rome'' ''Oslo '' ''90''],
        \<lparr>cache = (\<lambda>_. \<lparr>timestamp = 0, data = []\<rparr>)
           (secret_flying := \<lparr>timestamp = 1000,
              data = [expected_deal ''Rome to Oslo $90'' ''u1'' ''Rome'' ''Oslo '' ''90'']\<rparr>),
         fetch_log = [secret_flying]\<rparr>)
   \<and> scrape secret_flying 1299 (Inl FetchError)
       \<lparr>cache = (\<lambda>_. \<lparr>timestamp = 0, data = []\<rparr>)
           (secret_flying := \<lparr>timestamp = 1000,
              data = [expected_deal ''Rome to Oslo $90'' ''u1'' ''Rome'' ''Oslo '' ''90'']\<rparr>),
        fetch_log = [secret_flying]\<rparr>
     = ([expected_deal ''Rome to Oslo $90'' ''u1'' ''Rome'' ''Oslo '' ''90''],
        \<lparr>cache = (\<lambda>_. \<lparr>timestamp = 0, data = []\<rparr>)
           (secret_flying := \<lparr>timestamp = 1000,
              data = [expected_deal ''Rome to Oslo $90'' ''u1'' ''Rome'' ''Oslo '' ''90'']\<rparr>),
         fetch_log = [secret_flying]\<rparr>)
   \<and> fetch_log (snd (scrape secret_flying 1000 (Inl FetchError)
       (snd (scrape secret_flying 1000
          (Inr [\<lparr>entry_title = Some ''Rome to Oslo $90'', entry_link = Some ''u1''\<rparr>])
          initial_world))))
     = [secret_flying]"
proof -
  let ?d = "expected_deal ''Rome to Oslo $90'' ''u1'' ''Rome'' ''Oslo '' ''90''"
  let ?f = "Inr [\<lparr>entry_title = Some ''Rome to Oslo $90'', entry_link = Some ''u1''\<rparr>]"
  let ?w1 = "\<lparr>cache = (\<lambda>_. \<lparr>timestamp = 0, data = []\<rparr>)
                (secret_flying := \<lparr>timestamp = 1000, data = [?d]\<rparr>),
              fetch_log = [secret_flying]\<rparr>"
  have r: "re_search ''Rome to Oslo $90'' = Some (''Rome'', ''Oslo '', ''90'')" by code_simp
  have "decimal ''90'' = 90" by code_simp
  then have n: "decimal ''90'' \<le> 2 ^ 53" by simp
  have p: "parse_deal ''Rome to Oslo $90'' ''u1'' = Some ?d"
    by (rule parse_deal_Some_exact[OF r n])
  have fp: "fetch_and_parse ?f = Inr [?d]"
    by (simp add: fetch_and_parse_def collect_deals_def p)
  have stale: "\<not> ((1000::real) - timestamp (cache initial_world secret_flying) < 300)"
    by (simp add: initial_world_def)
  have stale': "\<not> ((1000::real) - timestamp (cache initial_world secret_flying) < CACHE_TTL)"
    using stale by (simp add: CACHE_TTL_def)
  have fresh: "(1299::real) - timestamp (cache ?w1 secret_flying) < 300" by simp
  note two = cache_hit[of 1299 ?w1 secret_flying "Inl FetchError" 1000 initial_world ?f "[?d]"
      "Inl FetchError"]
  have "scrape secret_flying 1299 (Inl FetchError) ?w1 = (data (cache ?w1 secret_flying), ?w1)"
    using two fresh by blast
  then have hit: "scrape secret_flying 1299 (Inl FetchError) ?w1 = ([?d], ?w1)"
    by simp
  have first: "scrape secret_flying 1000 ?f initial_world = ([?d], ?w1)"
    unfolding scrape_stale[OF stale'] fp by (simp add: initial_world_def)
  have "fetch_log (snd (scrape secret_flying 1000 (Inl FetchError)
               (snd (scrape secret_flying 1000 ?f initial_world))))
          = fetch_log initial_world @ [secret_flying]"
    using two stale fp by blast
  also have "\<dots> = [secret_flying]" by (simp add: initial_world_def)
  finally have log: "fetch_log (snd (scrape secret_flying 1000 (Inl FetchError)
               (snd (scrape secret_flying 1000 ?f initial_world)))) = [secret_flying]" .
  show ?thesis using first hit log by blast
qed

subsection \<open>C8: the aggregation\<close>

text \<open>
  C8. \<open>all_deals\<close> of \<open>find_deals\<close> is the result of \<open>scrape_secret_flying\<close> followed
  by the result of \<open>scrape_the_flight_deal\<close> (run on the world the first call leaves),
  each in its own order, and nothing is removed: every deal occurs as many times as in
  the two results together, so a deal that both sources return occurs twice.
\<close>

theorem aggregate_concat:
  "fst (all_deals t1 f1 t2 f2 w) =
     fst (scrape_secret_flying t1 f1 w) @
     fst (scrape_the_flight_deal t2 f2 (snd (scrape_secret_flying t1 f1 w)))
   \<and> count_list (fst (all_deals t1 f1 t2 f2 w)) d =
       count_list (fst (scrape_secret_flying t1 f1 w)) d +
       count_list (fst (scrape_the_flight_deal t2 f2 (snd (scrape_secret_flying t1 f1 w)))) d"
proof -
  have "fst (all_deals t1 f1 t2 f2 w) =
     fst (scrape_secret_flying t1 f1 w) @
     fst (scrape_the_flight_deal t2 f2 (snd (scrape_secret_flying t1 f1 w)))"
    by (simp add: all_deals_def split: prod.splits)
  then show ?thesis by simp
qed
end
